theory Spec2Isabelle
  imports Complex_Main "HOL-Library.Multiset"
begin

section \<open>The homepage word rotator (static/js/dac-word-rotator.js)\<close>

text \<open>
  The script is one constructor, \<open>DacWordRotator\<close>, with five methods and a static
  \<open>initialize\<close> that the window's load event calls. The model keeps the source's names;
  the trailing underscore of the private members (\<open>words_\<close>, \<open>rotateWord_\<close>, ...) is
  dropped, since a constant name cannot end in one.

  What the script reaches outside itself (the document, the timers of the window,
  \<open>Math.random\<close>) is modelled by the definitions of the first three subsections.
\<close>

subsection \<open>The class names (the map \<open>CLASSES\<close>)\<close>

definition ACTIVE :: string where "ACTIVE = ''is-active''"
definition ENTERING :: string where "ENTERING = ''is-entering''"
definition EXITING :: string where "EXITING = ''is-exiting''"
definition IS_READY :: string where "IS_READY = ''is-ready''"
definition ROTATOR :: string where "ROTATOR = ''dac-word-rotator''"

subsection \<open>JavaScript values, arrays, exceptions\<close>

text \<open>
  An array element of the word list is a string, or \<open>undefined\<close> when an index beyond
  the end is read. Reading beyond the end gives \<open>undefined\<close>; writing beyond the end
  extends the array (the skipped places read as \<open>undefined\<close>).
\<close>

datatype js_value = Undefined | Str string

datatype js_error = TypeError

text \<open>
  A method that mutates the page either returns or throws; what it had already written
  when it threw stays written, so both cases carry the state.
\<close>

datatype 'a outcome = Returns 'a | Throws js_error 'a

fun state_of :: "'a outcome \<Rightarrow> 'a" where
  "state_of (Returns s) = s"
| "state_of (Throws e s) = s"

fun threw :: "'a outcome \<Rightarrow> bool" where
  "threw (Returns s) = False"
| "threw (Throws e s) = True"

definition js_get :: "js_value list \<Rightarrow> nat \<Rightarrow> js_value" where
  "js_get array i = (if i < length array then array ! i else Undefined)"

definition js_set :: "js_value list \<Rightarrow> nat \<Rightarrow> js_value \<Rightarrow> js_value list" where
  "js_set array i v =
     (if i < length array then array[i := v]
      else array @ replicate (i - length array) Undefined @ [v])"

text \<open>
  \<open>String.prototype.split\<close> with a one-character separator: the string is cut at every
  occurrence, nothing is trimmed, and an empty piece is kept as the empty string.
\<close>

fun split :: "char \<Rightarrow> string \<Rightarrow> string list" where
  "split sep [] = ['''']"
| "split sep (c # cs) =
     (if c = sep then [] # split sep cs
      else (case split sep cs of
              [] \<Rightarrow> [c # '''']
            | w # ws \<Rightarrow> (c # w) # ws))"

text \<open>
  \<open>Math.random\<close> is a sequence of draws: \<open>random k\<close> is what the \<open>k\<close>-th call returns.
  Its contract is that every draw lies in \<open>[0, 1)\<close>. A draw is a double, hence a
  rational number; its product with the counter is taken exactly here. The rounded
  product of the script stays below the counter as well, and nothing below depends on
  which index below the counter a draw gives.
\<close>

definition unit_draws :: "(nat \<Rightarrow> rat) \<Rightarrow> bool" where
  "unit_draws random = (\<forall>k. 0 \<le> random k \<and> random k < 1)"

subsection \<open>The document and the window\<close>

text \<open>
  The container element found by \<open>document.querySelector('.' + CLASSES.ROTATOR)\<close> carries
  the \<open>data-words\<close> attribute (absent: \<open>None\<close>) and its \<open>span\<close> descendants in document
  order; each has an identity, so that the deferred removal can name the element it
  captured. \<open>host = None\<close> is the \<open>null\<close> that \<open>querySelector\<close> returns when no element
  has the class.
\<close>

record span_el =
  node :: nat
  textContent :: string
  classList :: "string list"

record host_el =
  data_words :: "string option"
  spans :: "span_el list"
  click_listeners :: nat

datatype callback = RotateWord | RemovePrevious nat

record timer =
  handle :: nat
  due :: nat
  callback :: callback

record page =
  host :: "host_el option"
  body_classes :: "string list"
  clock :: nat
  timers :: "timer list"
  last_handle :: nat
  next_node :: nat

record click_event =
  defaultPrevented :: bool

definition preventDefault :: "click_event \<Rightarrow> click_event" where
  "preventDefault e = e\<lparr>defaultPrevented := True\<rparr>"

definition classList_add :: "string \<Rightarrow> string list \<Rightarrow> string list" where
  "classList_add c cs = (if c \<in> set cs then cs else cs @ [c])"

definition add_class :: "nat \<Rightarrow> string \<Rightarrow> host_el \<Rightarrow> host_el" where
  "add_class n c el =
     el\<lparr>spans := map (\<lambda>s. if node s = n then s\<lparr>classList := classList_add c (classList s)\<rparr> else s)
                      (spans el)\<rparr>"

definition querySelector_span :: "host_el \<Rightarrow> nat option" where
  "querySelector_span el = (case spans el of [] \<Rightarrow> None | s # _ \<Rightarrow> Some (node s))"

text \<open>
  \<open>window.setTimeout\<close> hands out a handle greater than zero and adds a one-shot timer
  due after the delay; \<open>window.clearTimeout\<close> drops the timer of that handle, and does
  nothing for \<open>null\<close>.
\<close>

definition setTimeout :: "callback \<Rightarrow> nat \<Rightarrow> page \<Rightarrow> nat \<times> page" where
  "setTimeout cb delay p =
     (let h = Suc (last_handle p)
      in (h, p\<lparr>timers := timers p @ [\<lparr>handle = h, due = clock p + delay, callback = cb\<rparr>],
               last_handle := h\<rparr>))"

definition clearTimeout :: "nat option \<Rightarrow> page \<Rightarrow> page" where
  "clearTimeout t p =
     (case t of
        None \<Rightarrow> p
      | Some h \<Rightarrow> p\<lparr>timers := filter (\<lambda>x. handle x \<noteq> h) (timers p)\<rparr>)"

fun max_node :: "span_el list \<Rightarrow> nat" where
  "max_node [] = 0"
| "max_node (s # ss) = max (node s) (max_node ss)"

text \<open>
  The page when the load event fires: no timer of the script is pending yet, and the
  next element to be created is new.
\<close>

definition page_at_load :: "host_el option \<Rightarrow> string list \<Rightarrow> nat \<Rightarrow> page" where
  "page_at_load el body now =
     \<lparr>host = el, body_classes = body, clock = now, timers = [], last_handle = 0,
      next_node = (case el of None \<Rightarrow> 0 | Some e \<Rightarrow> Suc (max_node (spans e)))\<rparr>"

subsection \<open>The rotator\<close>

record DacWordRotator =
  words :: "js_value list"
  currentIndex :: nat
  interval :: nat
  duration :: nat
  timeout :: "nat option"

text \<open>\<open>this.el_\<close> is the reference to the container, that is \<open>host\<close> of the page.\<close>

type_synonym world = "DacWordRotator option \<times> page"

text \<open>\<open>if (this.timeout_)\<close>: \<open>null\<close> and \<open>0\<close> are falsy.\<close>

fun truthy :: "nat option \<Rightarrow> bool" where
  "truthy None = False"
| "truthy (Some h) = (h \<noteq> 0)"

definition scheduleWord :: "DacWordRotator \<Rightarrow> page \<Rightarrow> DacWordRotator \<times> page" where
  "scheduleWord this p =
     (let (h, p') = setTimeout RotateWord (interval this) p
      in (this\<lparr>timeout := Some h\<rparr>, p'))"

definition toggleAnimation ::
  "click_event \<Rightarrow> DacWordRotator \<Rightarrow> page \<Rightarrow> click_event \<times> DacWordRotator \<times> page" where
  "toggleAnimation e this p =
     (let e' = preventDefault e
      in if truthy (timeout this)
         then (e', this\<lparr>timeout := None\<rparr>, clearTimeout (timeout this) p)
         else (e', scheduleWord this p))"

fun shuffle_loop :: "(nat \<Rightarrow> rat) \<Rightarrow> nat \<Rightarrow> nat \<Rightarrow> js_value list \<Rightarrow> js_value list" where
  "shuffle_loop random k 0 array = array"
| "shuffle_loop random k (Suc c) array =
     (let index = nat \<lfloor>random k * of_nat (Suc c)\<rfloor>;
          counter = c;
          temp = js_get array counter;
          array = js_set array counter (js_get array index);
          array = js_set array index temp
      in shuffle_loop random (Suc k) counter array)"

definition shuffleArray :: "(nat \<Rightarrow> rat) \<Rightarrow> js_value list \<Rightarrow> js_value list" where
  "shuffleArray random array = shuffle_loop random 0 (length array) array"

definition buildWords :: "(nat \<Rightarrow> rat) \<Rightarrow> host_el option \<Rightarrow> js_error + js_value list" where
  "buildWords random el =
     (case el of
        None \<Rightarrow> Inl TypeError
      | Some e \<Rightarrow>
          (case data_words e of
             None \<Rightarrow> Inr []
           | Some s \<Rightarrow>
               if s = [] then Inr []
               else (let ws = map Str (split CHR '','' s)
                     in Inr ([js_get ws 0] @ shuffleArray random (drop 1 ws)))))"

definition text_of :: "js_value \<Rightarrow> string" where
  "text_of v = (case v of Undefined \<Rightarrow> [] | Str s \<Rightarrow> s)"

definition rotateWord :: "DacWordRotator \<Rightarrow> page \<Rightarrow> (DacWordRotator \<times> page) outcome" where
  "rotateWord this p =
     (let nextIndex = (if currentIndex this + 1 = length (words this) then 0
                       else currentIndex this + 1);
          nextWord = js_get (words this) nextIndex
      in case host p of
           None \<Rightarrow> Throws TypeError (this, p)
         | Some el \<Rightarrow>
             (let previousWordEl = querySelector_span el;
                  nextWordEl = \<lparr>node = next_node p, textContent = text_of nextWord,
                                classList = classList_add ENTERING []\<rparr>;
                  el = el\<lparr>spans := spans el @ [nextWordEl]\<rparr>;
                  el = add_class (node nextWordEl) ACTIVE el;
                  p = p\<lparr>host := Some el, next_node := Suc (next_node p)\<rparr>
              in case previousWordEl of
                   None \<Rightarrow> Throws TypeError (this, p)
                 | Some prev \<Rightarrow>
                     (let p = p\<lparr>host := Some (add_class prev EXITING el)\<rparr>;
                          (h, p) = setTimeout (RemovePrevious prev) (duration this) p;
                          this = this\<lparr>currentIndex := nextIndex\<rparr>
                      in Returns (scheduleWord this p))))"

text \<open>The deferred \<open>previousWordEl.parentNode.removeChild(previousWordEl)\<close>.\<close>

definition removePrevious :: "nat \<Rightarrow> page \<Rightarrow> page outcome" where
  "removePrevious n p =
     (case host p of
        None \<Rightarrow> Throws TypeError p
      | Some el \<Rightarrow>
          if n \<in> node ` set (spans el)
          then Returns (p\<lparr>host := Some (el\<lparr>spans := filter (\<lambda>s. node s \<noteq> n) (spans el)\<rparr>)\<rparr>)
          else Throws TypeError p)"

text \<open>
  The constructor \<open>new DacWordRotator(el)\<close>, with \<open>el\<close> the container of the page. It
  throws where \<open>buildWords_\<close> does; nothing has been written then and no instance is kept.
\<close>

definition new_DacWordRotator :: "(nat \<Rightarrow> rat) \<Rightarrow> page \<Rightarrow> world outcome" where
  "new_DacWordRotator random p =
     (case buildWords random (host p) of
        Inl e \<Rightarrow> Throws e (None, p)
      | Inr ws \<Rightarrow>
          (let this = \<lparr>words = ws, currentIndex = 0, interval = 2500, duration = 400,
                       timeout = None\<rparr>;
               (this, p) = scheduleWord this p;
               p = p\<lparr>body_classes := classList_add IS_READY (body_classes p)\<rparr>;
               p = p\<lparr>host := map_option (\<lambda>el. el\<lparr>click_listeners := Suc (click_listeners el)\<rparr>)
                                          (host p)\<rparr>
           in Returns (Some this, p)))"

definition initialize :: "(nat \<Rightarrow> rat) \<Rightarrow> page \<Rightarrow> world outcome" where
  "initialize random p = new_DacWordRotator random p"

subsection \<open>The event loop\<close>

text \<open>
  After \<open>initialize\<close> the script runs only in callbacks: a click on the container, or a
  timer that is due. Time passes between callbacks. A callback that throws ends there,
  and the page keeps what it had written.
\<close>

datatype stimulus = Click | Fire nat | Advance nat

fun run_callback :: "callback \<Rightarrow> world \<Rightarrow> world" where
  "run_callback RotateWord (None, p) = (None, p)"
| "run_callback RotateWord (Some this, p) =
     (case state_of (rotateWord this p) of (this', p') \<Rightarrow> (Some this', p'))"
| "run_callback (RemovePrevious n) (r, p) = (r, state_of (removePrevious n p))"

fun step :: "stimulus \<Rightarrow> world \<Rightarrow> world" where
  "step (Advance d) (r, p) = (r, p\<lparr>clock := clock p + d\<rparr>)"
| "step Click (None, p) = (None, p)"
| "step Click (Some this, p) =
     (case toggleAnimation \<lparr>defaultPrevented = False\<rparr> this p of
        (e, this', p') \<Rightarrow> (Some this', p'))"
| "step (Fire h) (r, p) =
     (case find (\<lambda>t. handle t = h \<and> due t \<le> clock p) (timers p) of
        None \<Rightarrow> (r, p)
      | Some t \<Rightarrow> run_callback (callback t) (r, p\<lparr>timers := remove1 t (timers p)\<rparr>))"

definition run :: "stimulus list \<Rightarrow> world \<Rightarrow> world" where
  "run evs w = fold step evs w"

text \<open>Whether a stimulus runs the rotation cycle, and how many of a sequence do.\<close>

fun fires_rotation :: "stimulus \<Rightarrow> world \<Rightarrow> bool" where
  "fires_rotation (Fire h) (r, p) =
     (case find (\<lambda>t. handle t = h \<and> due t \<le> clock p) (timers p) of
        None \<Rightarrow> False
      | Some t \<Rightarrow> callback t = RotateWord \<and> r \<noteq> None)"
| "fires_rotation e w = False"

fun rotations_fired :: "stimulus list \<Rightarrow> world \<Rightarrow> nat" where
  "rotations_fired [] w = 0"
| "rotations_fired (e # evs) w =
     (if fires_rotation e w then 1 else 0) + rotations_fired evs (step e w)"

subsection \<open>What is observed of a world\<close>

definition rotation_timers :: "page \<Rightarrow> timer list" where
  "rotation_timers p = filter (\<lambda>t. callback t = RotateWord) (timers p)"

definition index_of :: "world \<Rightarrow> nat" where
  "index_of w = (case fst w of None \<Rightarrow> 0 | Some this \<Rightarrow> currentIndex this)"

definition words_of :: "world \<Rightarrow> js_value list" where
  "words_of w = (case fst w of None \<Rightarrow> [] | Some this \<Rightarrow> words this)"

definition timeout_of :: "world \<Rightarrow> nat option" where
  "timeout_of w = (case fst w of None \<Rightarrow> None | Some this \<Rightarrow> timeout this)"

text \<open>
  Running: the stored handle is a timer handle, and the timer of that handle is the one
  pending rotation. Paused: the stored handle is \<open>null\<close> and no rotation is pending.
\<close>

definition running :: "world \<Rightarrow> bool" where
  "running w =
     (case timeout_of w of
        None \<Rightarrow> False
      | Some h \<Rightarrow> fst w \<noteq> None \<and> h \<noteq> 0 \<and> map handle (rotation_timers (snd w)) = [h])"

definition paused :: "world \<Rightarrow> bool" where
  "paused w = (fst w \<noteq> None \<and> timeout_of w = None \<and> rotation_timers (snd w) = [])"

definition timer_invariant :: "world \<Rightarrow> bool" where
  "timer_invariant w =
     ((timeout_of w \<noteq> None) = (rotation_timers (snd w) \<noteq> [])
      \<and> length (rotation_timers (snd w)) \<le> 1
      \<and> (running w \<or> paused w))"

subsection \<open>The invariant of the reachable worlds\<close>

text \<open>
  The rotation cycle needs a previous word element in the container. One stays there as
  long as the element appended last is not awaited by a deferred removal: a removal
  names an element that existed before the newest one was created.
\<close>

definition nodes :: "host_el \<Rightarrow> nat list" where
  "nodes el = map node (spans el)"

fun safe_callback :: "nat \<Rightarrow> nat \<Rightarrow> callback \<Rightarrow> bool" where
  "safe_callback bound keep RotateWord = True"
| "safe_callback bound keep (RemovePrevious n) = (n < bound \<and> n \<noteq> keep)"

definition dom_invariant :: "world \<Rightarrow> bool" where
  "dom_invariant w =
     (case host (snd w) of
        None \<Rightarrow> False
      | Some el \<Rightarrow>
          fst w \<noteq> None \<and> nodes el \<noteq> []
          \<and> list_all (\<lambda>n. n < next_node (snd w)) (nodes el)
          \<and> list_all (\<lambda>t. safe_callback (next_node (snd w)) (last (nodes el)) (callback t))
               (timers (snd w)))"

definition timing_of :: "world \<Rightarrow> nat \<times> nat" where
  "timing_of w = (case fst w of None \<Rightarrow> (0, 0) | Some this \<Rightarrow> (interval this, duration this))"

definition good :: "world \<Rightarrow> bool" where
  "good w = (dom_invariant w \<and> (running w \<or> paused w) \<and> timing_of w = (2500, 400))"

text \<open>
  \<open>k\<close> rotations on a page that is left alone: the rotation timer \<open>h\<close> fires when its
  interval has passed, and the removal it deferred, which got the next handle, fires
  after the transition; the rotation timer armed meanwhile has the handle after that.
\<close>

fun cycles :: "nat \<Rightarrow> nat \<Rightarrow> stimulus list" where
  "cycles h 0 = []"
| "cycles h (Suc k) =
     [Advance 2500, Fire h, Advance 400, Fire (Suc h)] @ cycles (Suc (Suc h)) k"

definition on_schedule :: "nat \<Rightarrow> world \<Rightarrow> bool" where
  "on_schedule h w =
     (good w \<and> last_handle (snd w) = h
      \<and> (case timers (snd w) of
            [t] \<Rightarrow> handle t = h \<and> callback t = RotateWord \<and> due t \<le> clock (snd w) + 2500
          | _ \<Rightarrow> False))"

subsection \<open>A page to run the script on\<close>

text \<open>
  The container as the homepage has it: the \<open>data-words\<close> attribute and one active word
  element. Every draw of \<open>Math.random\<close> is \<open>0\<close>.
\<close>

definition demo_host :: "string option \<Rightarrow> host_el" where
  "demo_host attr =
     \<lparr>data_words = attr,
      spans = [\<lparr>node = 0, textContent = ''Alpha'', classList = [ACTIVE]\<rparr>],
      click_listeners = 0\<rparr>"

definition demo_world :: "string option \<Rightarrow> world" where
  "demo_world attr = state_of (initialize (\<lambda>k. 0) (page_at_load (Some (demo_host attr)) [] 0))"

text \<open>The same container with no word element in it.\<close>

definition bare_host :: "string option \<Rightarrow> host_el" where
  "bare_host attr = \<lparr>data_words = attr, spans = [], click_listeners = 0\<rparr>"

definition bare_world :: "string option \<Rightarrow> world" where
  "bare_world attr = state_of (initialize (\<lambda>k. 0) (page_at_load (Some (bare_host attr)) [] 0))"

section \<open>Lemmas\<close>

subsection \<open>Evaluating the script on a given page\<close>

lemmas defs = demo_world_def demo_host_def bare_world_def bare_host_def initialize_def new_DacWordRotator_def buildWords_def
  shuffleArray_def js_get_def js_set_def scheduleWord_def setTimeout_def page_at_load_def
  classList_add_def run_def toggleAnimation_def clearTimeout_def rotateWord_def removePrevious_def
  querySelector_span_def add_class_def text_of_def preventDefault_def
  index_of_def words_of_def timeout_of_def rotation_timers_def running_def paused_def
  ACTIVE_def ENTERING_def EXITING_def IS_READY_def Let_def

subsection \<open>Splitting and shuffling\<close>

lemma split_not_Nil: "split sep s \<noteq> []"
  by (induction s) (auto split: list.splits)

lemma split_no_sep: "w \<in> set (split sep s) \<Longrightarrow> sep \<notin> set w"
  by (induction s arbitrary: w) (auto split: if_splits list.splits)

lemma split_pieces: "concat (map ((#) sep) (split sep s)) = sep # s"
  by (induction s) (auto split: list.splits)

lemma split_length: "length (split sep s) = Suc (count_list s sep)"
  by (induction s) (auto split: list.splits)

lemma draw_index_less:
  assumes "0 \<le> r" "r < 1"
  shows "nat \<lfloor>r * of_nat (Suc c)\<rfloor> < Suc c"
proof -
  have "r * of_nat (Suc c) < of_nat (Suc c)"
    using assms by (simp add: mult_less_cancel_right1 del: of_nat_Suc)
  then have "\<lfloor>r * of_nat (Suc c)\<rfloor> < int (Suc c)"
    by (simp add: floor_less_iff del: of_nat_Suc)
  then show ?thesis by linarith
qed

lemma swap_in_range:
  assumes "i < length xs" "j < length xs"
  shows "js_set (js_set xs j (js_get xs i)) i (js_get xs j) = xs[j := xs ! i, i := xs ! j]"
  using assms by (simp add: js_set_def js_get_def)

lemma shuffle_loop_mset:
  assumes "unit_draws random"
  shows "c \<le> length xs \<Longrightarrow> mset (shuffle_loop random k c xs) = mset xs"
proof (induction c arbitrary: k xs)
  case 0
  then show ?case by simp
next
  case (Suc c)
  define i where "i = nat \<lfloor>random k * of_nat (Suc c)\<rfloor>"
  have "i < Suc c"
    unfolding i_def using assms by (intro draw_index_less) (auto simp: unit_draws_def)
  with Suc.prems have i: "i < length xs" and c: "c < length xs" by auto
  let ?ys = "xs[c := xs ! i, i := xs ! c]"
  have unfold: "shuffle_loop random k (Suc c) xs = shuffle_loop random (Suc k) c ?ys"
    using swap_in_range [OF i c] by (simp add: Let_def i_def del: of_nat_Suc)
  have "mset (shuffle_loop random (Suc k) c ?ys) = mset ?ys"
    using c by (intro Suc.IH) simp
  also have "\<dots> = mset xs"
    using i c by (rule mset_swap)
  finally show ?case using unfold by simp
qed

lemma shuffleArray_mset: "unit_draws random \<Longrightarrow> mset (shuffleArray random xs) = mset xs"
  by (simp add: shuffleArray_def shuffle_loop_mset)

lemma shuffleArray_single:
  assumes "unit_draws random"
  shows "shuffleArray random [x] = [x]"
proof -
  have "mset (shuffleArray random [x]) = mset [x]"
    using assms by (rule shuffleArray_mset)
  then show ?thesis by (cases "shuffleArray random [x]") auto
qed

subsection \<open>The methods, unfolded\<close>

lemma scheduleWord_eq:
  "scheduleWord this p =
     (this\<lparr>timeout := Some (Suc (last_handle p))\<rparr>,
      p\<lparr>timers := timers p @ [\<lparr>handle = Suc (last_handle p), due = clock p + interval this,
                                callback = RotateWord\<rparr>],
        last_handle := Suc (last_handle p)\<rparr>)"
  by (simp add: scheduleWord_def setTimeout_def)

lemma nodes_add_class [simp]: "nodes (add_class n c el) = nodes el"
  by (simp add: nodes_def add_class_def comp_def if_distrib [of node] cong: if_cong)

lemma querySelector_span_eq:
  "querySelector_span el = (case nodes el of [] \<Rightarrow> None | n # _ \<Rightarrow> Some n)"
  by (simp add: querySelector_span_def nodes_def split: list.splits)

lemma rotateWord_Returns:
  assumes "host p = Some el" "nodes el = n # ns"
  shows "\<exists>this' p' el'. rotateWord this p = Returns (this', p')
     \<and> this' = this\<lparr>currentIndex := (if currentIndex this + 1 = length (words this) then 0
                                       else currentIndex this + 1),
                    timeout := Some (Suc (Suc (last_handle p)))\<rparr>
     \<and> host p' = Some el' \<and> nodes el' = nodes el @ [next_node p]
     \<and> next_node p' = Suc (next_node p)
     \<and> timers p' = timers p @ [\<lparr>handle = Suc (last_handle p), due = clock p + duration this,
                                  callback = RemovePrevious n\<rparr>,
                               \<lparr>handle = Suc (Suc (last_handle p)), due = clock p + interval this,
                                  callback = RotateWord\<rparr>]
     \<and> clock p' = clock p \<and> last_handle p' = Suc (Suc (last_handle p))"
  using assms
  by (simp add: rotateWord_def querySelector_span_eq scheduleWord_eq setTimeout_def Let_def)
     (simp add: nodes_def)

lemma rotateWord_body_classes:
  "state_of (rotateWord this p) = (this', p') \<Longrightarrow> body_classes p' = body_classes p"
  by (auto simp: rotateWord_def scheduleWord_eq setTimeout_def Let_def
      split: option.splits prod.splits)

lemma removePrevious_timers: "timers (state_of (removePrevious n p)) = timers p"
  by (simp add: removePrevious_def split: option.splits)

lemma removePrevious_clock:
  "clock (state_of (removePrevious n p)) = clock p"
  "last_handle (state_of (removePrevious n p)) = last_handle p"
  by (simp_all add: removePrevious_def split: option.splits)

lemma removePrevious_body_classes:
  "body_classes (state_of (removePrevious n p)) = body_classes p"
  by (simp add: removePrevious_def split: option.splits)

lemma toggleAnimation_body_classes:
  "toggleAnimation e this p = (e', this', p') \<Longrightarrow> body_classes p' = body_classes p"
  by (auto simp: toggleAnimation_def scheduleWord_eq clearTimeout_def Let_def
      split: option.splits if_splits)

lemma run_callback_body_classes:
  "body_classes (snd (run_callback cb w)) = body_classes (snd w)"
proof (cases w)
  case (Pair r p)
  show ?thesis
  proof (cases cb)
    case RotateWord
    then show ?thesis
      by (cases r) (auto simp: Pair split: prod.splits dest: rotateWord_body_classes)
  next
    case (RemovePrevious n)
    then show ?thesis by (simp add: Pair removePrevious_body_classes)
  qed
qed

lemma step_body_classes: "body_classes (snd (step e w)) = body_classes (snd w)"
proof (cases w)
  case (Pair r p)
  show ?thesis
  proof (cases e)
    case Click
    then show ?thesis
      by (cases r) (auto simp: Pair split: prod.splits dest: toggleAnimation_body_classes)
  next
    case (Fire h)
    then show ?thesis
      by (simp add: Pair run_callback_body_classes split: option.splits)
  next
    case (Advance d)
    then show ?thesis by (simp add: Pair)
  qed
qed

lemma run_body_classes: "body_classes (snd (run evs w)) = body_classes (snd w)"
  unfolding run_def by (induction evs arbitrary: w) (simp_all add: step_body_classes)


subsection \<open>The invariant is kept by every callback\<close>

lemma find_Some_set: "find P xs = Some x \<Longrightarrow> x \<in> set xs \<and> P x"
  by (induction xs) (auto split: if_splits)

lemma last_filter_keep:
  "xs \<noteq> [] \<Longrightarrow> P (last xs) \<Longrightarrow> filter P xs \<noteq> [] \<and> last (filter P xs) = last xs"
  by (induction xs) (auto split: if_splits)

lemma filter_handle_single:
  assumes "map handle (filter Q ts) = [h]"
  shows "filter Q (filter (\<lambda>x. handle x \<noteq> h) ts) = []"
proof -
  have "filter (\<lambda>x. handle x \<noteq> h) (filter Q ts) = []"
    using assms by (cases "filter Q ts") auto
  then show ?thesis by (simp add: conj_commute)
qed

lemma good_instance: "good w \<Longrightarrow> \<exists>this p. w = (Some this, p)"
  by (cases w) (auto simp: good_def dom_invariant_def split: option.splits)

lemma good_Advance: "good (r, p) \<Longrightarrow> good (r, p\<lparr>clock := clock p + d\<rparr>)"
  by (simp add: good_def dom_invariant_def running_def paused_def timeout_of_def
      rotation_timers_def timing_of_def split: option.splits)

lemma toggleAnimation_pause:
  assumes "timeout this = Some h" "h \<noteq> 0"
  shows "toggleAnimation e this p =
     (preventDefault e, this\<lparr>timeout := None\<rparr>,
      p\<lparr>timers := filter (\<lambda>x. handle x \<noteq> h) (timers p)\<rparr>)"
  using assms by (simp add: toggleAnimation_def clearTimeout_def)

lemma toggleAnimation_resume:
  assumes "\<not> truthy (timeout this)"
  shows "toggleAnimation e this p = (preventDefault e, scheduleWord this p)"
  using assms by (simp add: toggleAnimation_def)

lemma running_Click:
  assumes "running (Some this, p)"
  shows "paused (step Click (Some this, p))
     \<and> fst (step Click (Some this, p)) = Some (this\<lparr>timeout := None\<rparr>)
     \<and> clock (snd (step Click (Some this, p))) = clock p
     \<and> last_handle (snd (step Click (Some this, p))) = last_handle p"
proof -
  from assms obtain h where h: "timeout this = Some h" "h \<noteq> 0"
    and rot: "map handle (rotation_timers p) = [h]"
    by (auto simp: running_def timeout_of_def split: option.splits)
  let ?p = "p\<lparr>timers := filter (\<lambda>x. handle x \<noteq> h) (timers p)\<rparr>"
  have st: "step Click (Some this, p) = (Some (this\<lparr>timeout := None\<rparr>), ?p)"
    using h by (simp add: toggleAnimation_pause)
  have "rotation_timers ?p = []"
    using rot filter_handle_single [of "\<lambda>t. callback t = RotateWord" "timers p" h]
    by (simp add: rotation_timers_def)
  then show ?thesis
    unfolding st by (simp add: paused_def timeout_of_def)
qed

lemma paused_Click:
  assumes "paused (Some this, p)"
  shows "running (step Click (Some this, p))
     \<and> fst (step Click (Some this, p)) = Some (this\<lparr>timeout := Some (Suc (last_handle p))\<rparr>)
     \<and> rotation_timers (snd (step Click (Some this, p))) =
         [\<lparr>handle = Suc (last_handle p), due = clock p + interval this, callback = RotateWord\<rparr>]
     \<and> clock (snd (step Click (Some this, p))) = clock p"
proof -
  from assms have t: "timeout this = None" and rot: "rotation_timers p = []"
    by (auto simp: paused_def timeout_of_def)
  let ?r = "this\<lparr>timeout := Some (Suc (last_handle p))\<rparr>"
  let ?p = "p\<lparr>timers := timers p @ [\<lparr>handle = Suc (last_handle p), due = clock p + interval this,
                                callback = RotateWord\<rparr>],
        last_handle := Suc (last_handle p)\<rparr>"
  have st: "step Click (Some this, p) = (Some ?r, ?p)"
    using t by (simp add: toggleAnimation_resume scheduleWord_eq)
  have "rotation_timers ?p =
      [\<lparr>handle = Suc (last_handle p), due = clock p + interval this, callback = RotateWord\<rparr>]"
    using rot by (simp add: rotation_timers_def)
  then show ?thesis
    unfolding st by (simp add: running_def timeout_of_def)
qed

lemma dom_invariant_Click:
  assumes "dom_invariant (Some this, p)"
  shows "dom_invariant (step Click (Some this, p))"
proof (cases "truthy (timeout this)")
  case True
  then obtain h where h: "timeout this = Some h" "h \<noteq> 0"
    by (cases "timeout this") auto
  show ?thesis
    using assms
    by (auto simp: toggleAnimation_pause [OF h] dom_invariant_def list_all_iff split: option.splits)
next
  case False
  show ?thesis
    using assms
    by (auto simp: toggleAnimation_resume [OF False] scheduleWord_eq dom_invariant_def
        split: option.splits)
qed

text \<open>No callback changes the interval or the duration of the instance.\<close>

lemma toggleAnimation_timing:
  "toggleAnimation e this p = (e', this', p') \<Longrightarrow>
     interval this' = interval this \<and> duration this' = duration this"
  by (auto simp: toggleAnimation_def scheduleWord_eq Let_def split: if_splits)

lemma rotateWord_timing:
  "state_of (rotateWord this p) = (this', p') \<Longrightarrow>
     interval this' = interval this \<and> duration this' = duration this"
  by (auto simp: rotateWord_def scheduleWord_eq setTimeout_def Let_def
      split: option.splits prod.splits)

lemma run_callback_timing: "timing_of (run_callback cb w) = timing_of w"
proof (cases w)
  case (Pair r p)
  show ?thesis
  proof (cases cb)
    case RotateWord
    then show ?thesis
      by (cases r) (auto simp: Pair timing_of_def split: prod.splits dest: rotateWord_timing)
  next
    case (RemovePrevious n)
    then show ?thesis by (simp add: Pair timing_of_def)
  qed
qed

lemma step_timing: "timing_of (step e w) = timing_of w"
proof (cases w)
  case (Pair r p)
  show ?thesis
  proof (cases e)
    case Click
    then show ?thesis
      by (cases r) (auto simp: Pair timing_of_def split: prod.splits dest: toggleAnimation_timing)
  next
    case (Fire h)
    then show ?thesis
      using run_callback_timing [of _ "(r, p\<lparr>timers := remove1 _ (timers p)\<rparr>)"]
      by (simp add: Pair split: option.splits) (simp add: timing_of_def)
  next
    case (Advance d)
    then show ?thesis by (simp add: Pair timing_of_def)
  qed
qed

lemma run_timing: "timing_of (run evs w) = timing_of w"
  unfolding run_def by (induction evs arbitrary: w) (simp_all add: step_timing)

lemma good_Click:
  assumes "good (Some this, p)"
  shows "good (step Click (Some this, p))"
  using assms running_Click [of this p] paused_Click [of this p]
    dom_invariant_Click [of this p] step_timing [of Click "(Some this, p)"]
  by (auto simp: good_def simp del: step.simps)

lemma removePrevious_good:
  assumes "dom_invariant (r, p)" "host p = Some el" "n \<noteq> last (nodes el)"
  shows "dom_invariant (r, state_of (removePrevious n p))"
proof (cases "n \<in> node ` set (spans el)")
  case False
  then show ?thesis using assms by (simp add: removePrevious_def)
next
  case True
  let ?el = "el\<lparr>spans := filter (\<lambda>s. node s \<noteq> n) (spans el)\<rparr>"
  have nodes: "nodes ?el = filter (\<lambda>m. m \<noteq> n) (nodes el)"
    by (simp add: nodes_def filter_map comp_def)
  from assms have ne: "nodes el \<noteq> []" and ln: "last (nodes el) \<noteq> n"
    by (auto simp: dom_invariant_def)
  from last_filter_keep [of "nodes el" "\<lambda>m. m \<noteq> n", OF ne ln]
  have keep: "nodes ?el \<noteq> []" "last (nodes ?el) = last (nodes el)"
    by (simp_all add: nodes)
  have st: "state_of (removePrevious n p) = p\<lparr>host := Some ?el\<rparr>"
    using True assms(2) by (simp add: removePrevious_def)
  show ?thesis
    unfolding st using assms(1,2) keep
    by (auto simp: dom_invariant_def nodes list_all_iff)
qed

text \<open>A due timer fires: the rotation cycle returns and advances the index.\<close>

lemma good_Fire:
  assumes "good (Some this, p)"
    and "find (\<lambda>t. handle t = h \<and> due t \<le> clock p) (timers p) = Some t"
  shows "good (step (Fire h) (Some this, p))
     \<and> words_of (step (Fire h) (Some this, p)) = words this
     \<and> index_of (step (Fire h) (Some this, p)) =
         (if callback t = RotateWord
          then (if currentIndex this + 1 = length (words this) then 0 else currentIndex this + 1)
          else currentIndex this)"
proof -
  from assms(2) have t: "t \<in> set (timers p)" by (auto dest: find_Some_set)
  let ?p = "p\<lparr>timers := remove1 t (timers p)\<rparr>"
  from assms(1) obtain el where el: "host p = Some el"
    by (auto simp: good_def dom_invariant_def split: option.splits)
  from assms(1) have i: "interval this = 2500"
    by (simp add: good_def timing_of_def)
  have dom: "dom_invariant (Some this, ?p)"
    using assms(1) el by (auto simp: good_def dom_invariant_def list_all_iff dest: notin_set_remove1)
  show ?thesis
  proof (cases "callback t")
    case (RemovePrevious n)
    have st: "step (Fire h) (Some this, p) = (Some this, state_of (removePrevious n ?p))"
      using assms(2) RemovePrevious by simp
    have "n \<noteq> last (nodes el)"
      using assms(1) el t RemovePrevious by (auto simp: good_def dom_invariant_def list_all_iff)
    then have "dom_invariant (Some this, state_of (removePrevious n ?p))"
      using dom el by (intro removePrevious_good) simp_all
    moreover have "rotation_timers (state_of (removePrevious n ?p)) = rotation_timers p"
      using RemovePrevious
      by (simp add: rotation_timers_def removePrevious_timers filter_remove1 remove1_idem)
    ultimately show ?thesis
      using assms(1) RemovePrevious unfolding st
      by (simp add: good_def running_def paused_def timeout_of_def timing_of_def
          words_of_def index_of_def split: option.splits)
  next
    case RotateWord
    with t have "t \<in> set (rotation_timers p)" by (simp add: rotation_timers_def)
    with assms(1) have "rotation_timers p = [t]"
      by (cases "rotation_timers p")
         (auto simp: good_def running_def paused_def timeout_of_def split: option.splits)
    then have rot: "rotation_timers ?p = []"
      by (simp add: rotation_timers_def filter_remove1)
    from dom el obtain n ns where ns: "nodes el = n # ns"
      by (cases "nodes el") (auto simp: dom_invariant_def)
    from rotateWord_Returns [of ?p el n ns this] el ns
    obtain this' p' el' where r: "rotateWord this ?p = Returns (this', p')"
      and this': "this' = this\<lparr>currentIndex := (if currentIndex this + 1 = length (words this)
                                                 then 0 else currentIndex this + 1),
                               timeout := Some (Suc (Suc (last_handle p)))\<rparr>"
      and p': "host p' = Some el'" "nodes el' = nodes el @ [next_node p]"
          "next_node p' = Suc (next_node p)"
          "timers p' = remove1 t (timers p) @ [\<lparr>handle = Suc (last_handle p), due = clock p + duration this,
                                  callback = RemovePrevious n\<rparr>,
                               \<lparr>handle = Suc (Suc (last_handle p)), due = clock p + interval this,
                                  callback = RotateWord\<rparr>]"
      by auto
    have st: "step (Fire h) (Some this, p) = (Some this', p')"
      using assms(2) RotateWord r by simp
    have "running (Some this', p')"
      using rot p' this' by (simp add: running_def timeout_of_def rotation_timers_def)
    moreover have "dom_invariant (Some this', p')"
      using dom el ns p'
      by (auto simp: dom_invariant_def list_all_iff elim!: safe_callback.elims)
    moreover have "timing_of (Some this', p') = (2500, 400)"
      using assms(1) this' by (simp add: good_def timing_of_def)
    ultimately show ?thesis
      unfolding st using RotateWord this' by (simp add: good_def words_of_def index_of_def)
  qed
qed

lemma good_step: "good w \<Longrightarrow> good (step e w)"
proof -
  assume g: "good w"
  then obtain this p where w: "w = (Some this, p)"
    using good_instance by blast
  show ?thesis
  proof (cases e)
    case Click
    then show ?thesis using g good_Click w by simp
  next
    case (Fire h)
    show ?thesis
    proof (cases "find (\<lambda>t. handle t = h \<and> due t \<le> clock p) (timers p)")
      case None
      then show ?thesis using g w Fire by simp
    next
      case (Some t)
      then show ?thesis using g w Fire good_Fire [of this p h t] by simp
    qed
  next
    case (Advance d)
    then show ?thesis using g good_Advance w by simp
  qed
qed

lemma good_run: "good w \<Longrightarrow> good (run evs w)"
  unfolding run_def by (induction evs arbitrary: w) (simp_all add: good_step)

text \<open>What a stimulus does to the word list and the index.\<close>

lemma step_index:
  assumes "good w" "index_of w < length (words_of w)"
  shows "words_of (step e w) = words_of w
     \<and> index_of (step e w) =
         (index_of w + (if fires_rotation e w then 1 else 0)) mod length (words_of w)"
proof -
  from assms(1) obtain this p where w: "w = (Some this, p)"
    using good_instance by blast
  from assms(2) have lt: "currentIndex this < length (words this)"
    by (simp add: w index_of_def words_of_def)
  show ?thesis
  proof (cases e)
    case Click
    have "fst (step Click (Some this, p)) = Some (this\<lparr>timeout := None\<rparr>)
        \<or> fst (step Click (Some this, p)) = Some (this\<lparr>timeout := Some (Suc (last_handle p))\<rparr>)"
      using assms(1) running_Click [of this p] paused_Click [of this p]
      by (auto simp: good_def w simp del: step.simps)
    then show ?thesis
      using lt by (auto simp: Click w index_of_def words_of_def)
  next
    case (Advance d)
    then show ?thesis using lt by (simp add: w index_of_def words_of_def)
  next
    case (Fire h)
    show ?thesis
    proof (cases "find (\<lambda>t. handle t = h \<and> due t \<le> clock p) (timers p)")
      case None
      then show ?thesis using lt by (simp add: Fire w index_of_def words_of_def)
    next
      case (Some t)
      have fr: "fires_rotation (Fire h) (Some this, p) = (callback t = RotateWord)"
        using Some by simp
      from good_Fire [OF assms(1) [unfolded w] Some] lt
      show ?thesis
        unfolding Fire w fr
        by (auto simp: index_of_def words_of_def simp del: step.simps)
    qed
  qed
qed

lemma run_index:
  assumes "good w" "index_of w < length (words_of w)"
  shows "words_of (run evs w) = words_of w
     \<and> index_of (run evs w) = (index_of w + rotations_fired evs w) mod length (words_of w)"
  using assms
proof (induction evs arbitrary: w)
  case Nil
  then show ?case by (simp add: run_def)
next
  case (Cons e evs)
  let ?n = "length (words_of w)"
  let ?b = "if fires_rotation e w then 1 else 0 :: nat"
  from Cons.prems have n: "0 < ?n" by auto
  from step_index [OF Cons.prems, of e]
  have s: "words_of (step e w) = words_of w" "index_of (step e w) = (index_of w + ?b) mod ?n"
    by simp_all
  have "index_of (step e w) < length (words_of (step e w))"
    using s n by simp
  from Cons.IH [OF good_step [OF Cons.prems(1)] this]
  have "words_of (run evs (step e w)) = words_of w"
    and "index_of (run evs (step e w)) =
      ((index_of w + ?b) mod ?n + rotations_fired evs (step e w)) mod ?n"
    using s by simp_all
  then show ?case
    by (simp add: run_def mod_add_left_eq add.assoc)
qed

subsection \<open>Construction\<close>

lemma max_node_ge: "s \<in> set ss \<Longrightarrow> node s \<le> max_node ss"
  by (induction ss) auto

lemma buildWords_host: "\<exists>ws. buildWords random (Some el) = Inr ws"
  by (simp add: buildWords_def Let_def split: option.splits)

lemma buildWords_not_Nil:
  "data_words el = Some s \<Longrightarrow> s \<noteq> [] \<Longrightarrow> buildWords random (Some el) = Inr ws \<Longrightarrow> ws \<noteq> []"
  by (auto simp: buildWords_def Let_def)

lemma initialize_Returns:
  assumes "buildWords random (Some el) = Inr ws"
  shows "initialize random (page_at_load (Some el) body now) =
     Returns (Some \<lparr>words = ws, currentIndex = 0, interval = 2500, duration = 400,
                     timeout = Some 1\<rparr>,
              \<lparr>host = Some (el\<lparr>click_listeners := Suc (click_listeners el)\<rparr>),
               body_classes = classList_add IS_READY body, clock = now,
               timers = [\<lparr>handle = 1, due = now + 2500, callback = RotateWord\<rparr>],
               last_handle = 1, next_node = Suc (max_node (spans el))\<rparr>)"
  using assms
  by (simp add: initialize_def new_DacWordRotator_def page_at_load_def scheduleWord_eq)

lemma initialize_good:
  assumes "spans el \<noteq> []"
  shows "good (state_of (initialize random (page_at_load (Some el) body now)))"
proof -
  obtain ws where ws: "buildWords random (Some el) = Inr ws"
    using buildWords_host by blast
  have "\<forall>n \<in> set (nodes el). n < Suc (max_node (spans el))"
    by (auto simp: nodes_def less_Suc_eq_le max_node_ge)
  then show ?thesis
    using assms
    by (simp add: initialize_Returns [OF ws] good_def dom_invariant_def running_def paused_def
        timeout_of_def timing_of_def rotation_timers_def nodes_def list_all_iff)
qed

lemma initialize_observed:
  assumes "buildWords random (Some el) = Inr ws"
  shows "words_of (state_of (initialize random (page_at_load (Some el) body now))) = ws"
    and "index_of (state_of (initialize random (page_at_load (Some el) body now))) = 0"
  by (simp_all add: initialize_Returns [OF assms] words_of_def index_of_def)

lemma reachable_timing:
  "timing_of (run evs (state_of (initialize random (page_at_load (Some el) body now)))) = (2500, 400)"
proof -
  obtain ws where "buildWords random (Some el) = Inr ws"
    using buildWords_host by blast
  then show ?thesis
    by (simp only: run_timing) (simp add: initialize_Returns timing_of_def)
qed

lemma instance_cases: "fst w \<noteq> None \<Longrightarrow> \<exists>this p. w = (Some this, p)"
  by (cases w) auto

subsection \<open>Rotations on schedule\<close>

lemma rotations_fired_append:
  "rotations_fired (xs @ ys) w = rotations_fired xs w + rotations_fired ys (run xs w)"
  by (induction xs arbitrary: w) (simp_all add: run_def)

lemma run_append: "run (xs @ ys) w = run ys (run xs w)"
  by (simp add: run_def)

lemma on_schedule_round:
  assumes "on_schedule h w"
  shows "on_schedule (Suc (Suc h)) (run [Advance 2500, Fire h, Advance 400, Fire (Suc h)] w)
     \<and> rotations_fired [Advance 2500, Fire h, Advance 400, Fire (Suc h)] w = 1"
proof -
  from assms have g: "good w" by (simp add: on_schedule_def)
  then obtain this p where w: "w = (Some this, p)"
    using good_instance by blast
  from assms obtain t where t: "timers p = [t]" "handle t = h" "callback t = RotateWord"
      "due t \<le> clock p + 2500" and lh: "last_handle p = h"
    by (auto simp: on_schedule_def w split: list.splits)
  from g obtain el n ns where el: "host p = Some el" "nodes el = n # ns"
    by (cases "host p"; cases "nodes (the (host p))") (auto simp: good_def dom_invariant_def w)
  from g have i: "interval this = 2500" "duration this = 400"
    by (simp_all add: good_def timing_of_def w)
  let ?p1 = "p\<lparr>clock := clock p + 2500\<rparr>"
  let ?p2 = "?p1\<lparr>timers := remove1 t (timers ?p1)\<rparr>"
  let ?rm = "\<lparr>handle = Suc h, due = clock p + 2500 + 400, callback = RemovePrevious n\<rparr>"
  let ?rt = "\<lparr>handle = Suc (Suc h), due = clock p + 2500 + 2500, callback = RotateWord\<rparr>"
  have s1: "step (Advance 2500) w = (Some this, ?p1)" by (simp add: w)
  from rotateWord_Returns [of ?p2 el n ns this] el
  obtain this' p3 where r: "rotateWord this ?p2 = Returns (this', p3)"
    and p3: "timers p3 = [?rm, ?rt]" "clock p3 = clock p + 2500" "last_handle p3 = Suc (Suc h)"
    using lh i t(1) by auto
  have s2: "step (Fire h) (Some this, ?p1) = (Some this', p3)"
    using t r by simp
  have f2: "fires_rotation (Fire h) (Some this, ?p1)"
    using t by simp
  let ?p4 = "p3\<lparr>clock := clock p3 + 400\<rparr>"
  have s3: "step (Advance 400) (Some this', p3) = (Some this', ?p4)" by simp
  let ?p5 = "state_of (removePrevious n (?p4\<lparr>timers := [?rt]\<rparr>))"
  have s4: "step (Fire (Suc h)) (Some this', ?p4) = (Some this', ?p5)"
    using p3 by simp
  have f4: "\<not> fires_rotation (Fire (Suc h)) (Some this', ?p4)"
    using p3 by simp
  have f13: "\<not> fires_rotation (Advance 2500) (Some this, p)"
    "\<not> fires_rotation (Advance 400) (Some this', p3)"
    by simp_all
  have run: "run [Advance 2500, Fire h, Advance 400, Fire (Suc h)] w = (Some this', ?p5)"
    unfolding run_def using s1 s2 s3 s4 by (simp del: step.simps)
  have "good (run [Advance 2500, Fire h, Advance 400, Fire (Suc h)] w)"
    using g by (rule good_run)
  then have "on_schedule (Suc (Suc h)) (Some this', ?p5)"
    unfolding run using p3
    by (simp add: on_schedule_def removePrevious_timers removePrevious_clock)
  moreover have "rotations_fired [Advance 2500, Fire h, Advance 400, Fire (Suc h)] w = 1"
    using s1 s2 s3 f2 f4 f13 by (simp add: w del: step.simps fires_rotation.simps)
  ultimately show ?thesis by (simp only: run)
qed

lemma cycles_fired:
  "on_schedule h w \<Longrightarrow> rotations_fired (cycles h k) w = k"
proof (induction k arbitrary: h w)
  case 0
  then show ?case by simp
next
  case (Suc k)
  from on_schedule_round [OF Suc.prems] Suc.IH
  show ?case by (simp only: cycles.simps rotations_fired_append)
qed

lemma initialize_on_schedule:
  assumes "spans el \<noteq> []"
  shows "on_schedule 1 (state_of (initialize random (page_at_load (Some el) body now)))"
proof -
  obtain ws where ws: "buildWords random (Some el) = Inr ws"
    using buildWords_host by blast
  show ?thesis
    using initialize_good [OF assms, of random body now]
    by (simp add: on_schedule_def) (simp add: initialize_Returns [OF ws])
qed

lemma good_timer_invariant: "good w \<Longrightarrow> timer_invariant w"
  by (auto simp: good_def timer_invariant_def running_def paused_def split: option.splits)

section \<open>The claims\<close>

text \<open>
  C1. If no element bears the rotator class when the page has loaded, \<open>initialize\<close> is
  to do nothing and raise no error. The script does not do so: \<open>querySelector\<close> returns
  \<open>null\<close>, the constructor is called with it all the same, and \<open>buildWords_\<close> reads
  \<open>dataset\<close> of \<open>null\<close>. So \<open>initialize\<close> throws a TypeError; no timer has been armed
  then, the ready class is not set, no listener is registered and no instance is kept.
\<close>

theorem initialize_without_host_throws:
  "initialize random (page_at_load None body now) = Throws TypeError (None, page_at_load None body now)"
  by (simp add: initialize_def new_DacWordRotator_def buildWords_def page_at_load_def)

text \<open>
  C2. For a container whose \<open>data-words\<close> attribute is absent or empty, construction is
  to yield the empty word list, not to throw, and to schedule no rotation. The script
  yields the empty list and does not throw, but it does not skip the scheduling: the
  constructor arms the rotation timer whatever \<open>buildWords_\<close> returned. When the timer
  fires, the rotation cycle runs on the empty list: the next index 1 is never equal to
  the length 0, so the index counts up without wrapping, and each cycle puts an element
  with empty text in place of the word.
\<close>

theorem construct_without_words_arms_timer:
  "words_of (demo_world None) = []
   \<and> words_of (demo_world (Some [])) = []
   \<and> timeout_of (demo_world None) = Some 1
   \<and> rotation_timers (snd (demo_world None)) = [\<lparr>handle = 1, due = 2500, callback = RotateWord\<rparr>]
   \<and> rotation_timers (snd (demo_world (Some []))) =
       [\<lparr>handle = 1, due = 2500, callback = RotateWord\<rparr>]
   \<and> index_of (run [Advance 2500, Fire 1] (demo_world None)) = 1
   \<and> map_option (\<lambda>el. map textContent (spans el))
         (host (snd (run [Advance 2500, Fire 1, Advance 400, Fire 2] (demo_world None))))
       = Some ['''']
   \<and> index_of (run [Advance 2500, Fire 1, Advance 400, Fire 2, Advance 2100, Fire 3]
         (demo_world None)) = 2"
  by (simp add: defs)

text \<open>
  C3, as amended. For every non-empty word list of length \<open>n\<close>, in a container that holds
  a word element when the page has loaded, the index is 0 after construction, and after any sequence of clicks,
  timer firings and waits in which the rotation cycle fired \<open>k\<close> times it is \<open>k mod n\<close>,
  over the word list built at construction. Every \<open>k\<close> is reached: left alone, the page
  fires the rotation cycle \<open>k\<close> times in \<open>k\<close> intervals. So with three words the index is
  back at its start after three rotations.
\<close>

theorem index_after_rotations:
  assumes "data_words el = Some s" "s \<noteq> []" "spans el \<noteq> []"
    and "w = state_of (initialize random (page_at_load (Some el) body now))"
  shows "words_of w \<noteq> [] \<and> index_of w = 0
     \<and> words_of (run evs w) = words_of w
     \<and> index_of (run evs w) = rotations_fired evs w mod length (words_of w)
     \<and> rotations_fired (cycles 1 k) w = k
     \<and> index_of (run (cycles 1 k) w) = k mod length (words_of w)"
proof -
  obtain ws where ws: "buildWords random (Some el) = Inr ws"
    using buildWords_host by blast
  have w: "words_of w = ws" "index_of w = 0"
    using initialize_observed [OF ws] assms(4) by simp_all
  have ne: "ws \<noteq> []"
    using buildWords_not_Nil [OF assms(1,2) ws] .
  have g: "good w"
    using initialize_good [OF assms(3)] assms(4) by simp
  have k: "rotations_fired (cycles 1 k) w = k"
    using initialize_on_schedule [OF assms(3)] assms(4) by (simp add: cycles_fired)
  from run_index [OF g, of evs] run_index [OF g, of "cycles 1 k"] w ne k
  show ?thesis by simp
qed

text \<open>
  The amended C3 on three words: three rotations, each followed by the removal of the
  word that left, bring the index back to \<open>3 mod 3\<close>.
\<close>

theorem index_after_rotations_witness:
  "data_words (demo_host (Some ''A,B,C'')) = Some ''A,B,C'' \<and> ''A,B,C'' \<noteq> []
   \<and> spans (demo_host (Some ''A,B,C'')) \<noteq> []
   \<and> rotations_fired [Advance 2500, Fire 1, Advance 400, Fire 2, Advance 2100, Fire 3,
        Advance 400, Fire 4, Advance 2100, Fire 5] (demo_world (Some ''A,B,C'')) = 3
   \<and> length (words_of (demo_world (Some ''A,B,C''))) = 3
   \<and> index_of (run [Advance 2500, Fire 1, Advance 400, Fire 2, Advance 2100, Fire 3,
        Advance 400, Fire 4, Advance 2100, Fire 5] (demo_world (Some ''A,B,C''))) = 3 mod 3"
proof -
  have k: "rotations_fired [Advance 2500, Fire 1, Advance 400, Fire 2, Advance 2100, Fire 3,
        Advance 400, Fire 4, Advance 2100, Fire 5] (demo_world (Some ''A,B,C'')) = 3"
    by (simp add: defs)
  have n: "length (words_of (demo_world (Some ''A,B,C''))) = 3"
    by (simp add: defs)
  have h: "data_words (demo_host (Some ''A,B,C'')) = Some ''A,B,C''"
    "spans (demo_host (Some ''A,B,C'')) \<noteq> []"
    by (simp_all add: demo_host_def)
  from index_after_rotations [OF h(1) _ h(2), where w = "demo_world (Some ''A,B,C'')"
      and random = "\<lambda>k. 0" and body = "[]" and now = 0
      and evs = "[Advance 2500, Fire 1, Advance 400, Fire 2, Advance 2100, Fire 3,
        Advance 400, Fire 4, Advance 2100, Fire 5]"]
  show ?thesis using k n h by (simp add: demo_world_def)
qed

text \<open>
  C3 as stated fails twice over. With three words and three rotations the index is 0,
  the value it started from, and not \<open>(1 + 3) mod 3\<close>. And in a container with no word
  element the rotation cycle throws before it writes the index: after one firing on
  three words the index is still 0, which is neither \<open>(1 + 1) mod 3\<close> nor \<open>1 mod 3\<close>.
\<close>

theorem index_after_rotations_counterexample:
  "length (words_of (demo_world (Some ''A,B,C''))) = 3
   \<and> rotations_fired [Advance 2500, Fire 1, Advance 400, Fire 2, Advance 2100, Fire 3,
        Advance 400, Fire 4, Advance 2100, Fire 5] (demo_world (Some ''A,B,C'')) = 3
   \<and> index_of (run [Advance 2500, Fire 1, Advance 400, Fire 2, Advance 2100, Fire 3,
        Advance 400, Fire 4, Advance 2100, Fire 5] (demo_world (Some ''A,B,C''))) = 0
   \<and> index_of (run [Advance 2500, Fire 1, Advance 400, Fire 2, Advance 2100, Fire 3,
        Advance 400, Fire 4, Advance 2100, Fire 5] (demo_world (Some ''A,B,C''))) \<noteq> (1 + 3) mod 3
   \<and> length (words_of (bare_world (Some ''A,B,C''))) = 3
   \<and> rotations_fired [Advance 2500, Fire 1] (bare_world (Some ''A,B,C'')) = 1
   \<and> index_of (run [Advance 2500, Fire 1] (bare_world (Some ''A,B,C''))) = 0
   \<and> index_of (run [Advance 2500, Fire 1] (bare_world (Some ''A,B,C''))) \<noteq> (1 + 1) mod 3
   \<and> index_of (run [Advance 2500, Fire 1] (bare_world (Some ''A,B,C''))) \<noteq> 1 mod 3"
  by (simp add: defs)

text \<open>
  C4, as amended. The script has one click handler, which toggles; it has no pause
  action of its own. For every reachable instance that is paused, the next click does not
  throw and resumes: one rotation timer is armed, due a full interval after the click,
  its handle is stored, and the index and the word list are as before.
\<close>

theorem click_on_paused_resumes:
  assumes "w = run evs (state_of (initialize random (page_at_load (Some el) body now)))"
    and "paused w"
  shows "running (step Click w)
     \<and> rotation_timers (snd (step Click w)) =
         [\<lparr>handle = Suc (last_handle (snd w)), due = clock (snd w) + 2500, callback = RotateWord\<rparr>]
     \<and> timeout_of (step Click w) = Some (Suc (last_handle (snd w)))
     \<and> index_of (step Click w) = index_of w
     \<and> words_of (step Click w) = words_of w"
proof -
  from assms(2) have "fst w \<noteq> None"
    by (simp add: paused_def)
  then have "\<exists>this p. w = (Some this, p)"
    by (rule instance_cases)
  then obtain this p where w: "w = (Some this, p)"
    by (elim exE)
  have "timing_of w = (2500, 400)"
    unfolding assms(1) by (rule reachable_timing)
  then have "interval this = 2500"
    by (simp add: w timing_of_def)
  with paused_Click [of this p] assms(2)
  show ?thesis
    unfolding w by (simp add: timeout_of_def index_of_def words_of_def del: step.simps)
qed

text \<open>
  The amended C4 after one click on the homepage container.
\<close>

theorem click_on_paused_resumes_witness:
  "paused (run [Click] (demo_world (Some ''A,B,C'')))
   \<and> running (step Click (run [Click] (demo_world (Some ''A,B,C''))))
   \<and> timeout_of (step Click (run [Click] (demo_world (Some ''A,B,C'')))) = Some 2"
proof -
  have p: "paused (run [Click] (demo_world (Some ''A,B,C'')))"
    by (simp add: defs)
  have l: "last_handle (snd (run [Click] (demo_world (Some ''A,B,C'')))) = 1"
    by (simp add: defs)
  from click_on_paused_resumes [OF _ p, where evs = "[Click]" and random = "\<lambda>k. 0"
      and el = "demo_host (Some ''A,B,C'')" and body = "[]" and now = 0]
  show ?thesis using p l by (simp add: demo_world_def)
qed

text \<open>
  C4 as stated fails: the first click pauses, and the second click, with no resume in
  between, does not leave the timer cleared: it stores the handle 2 of a new timer.
\<close>

theorem second_click_counterexample:
  "paused (run [Click] (demo_world (Some ''A,B,C'')))
   \<and> \<not> paused (run [Click, Click] (demo_world (Some ''A,B,C'')))
   \<and> timeout_of (run [Click, Click] (demo_world (Some ''A,B,C''))) = Some 2
   \<and> rotation_timers (snd (run [Click, Click] (demo_world (Some ''A,B,C'')))) =
       [\<lparr>handle = 2, due = 2500, callback = RotateWord\<rparr>]"
  by (simp add: defs)

text \<open>
  C5, as amended. For every non-empty word list of length \<open>n\<close> and every index \<open>i < n\<close>, one
  rotation cycle in a container that holds a previous word element returns without
  throwing and sets the index to \<open>(i + 1) mod n\<close>; for \<open>n = 1\<close> the new index is 0.
\<close>

theorem rotateWord_next_index:
  assumes "host p = Some el" "spans el \<noteq> []"
    and "length (words this) = n" "currentIndex this = i" "i < n"
  shows "\<exists>this' p'. rotateWord this p = Returns (this', p')
           \<and> currentIndex this' = (i + 1) mod n
           \<and> words this' = words this
           \<and> (n = 1 \<longrightarrow> currentIndex this' = 0)"
proof -
  from assms(2) obtain m ms where "nodes el = m # ms"
    by (cases "spans el") (auto simp: nodes_def)
  from rotateWord_Returns [OF assms(1) this, of this]
  obtain this' p' where r: "rotateWord this p = Returns (this', p')"
    and i: "currentIndex this' = (if i + 1 = n then 0 else i + 1)"
    and ws: "words this' = words this"
    using assms(3,4) by auto
  from i assms(5) have "currentIndex this' = (i + 1) mod n"
    by (auto simp: mod_Suc)
  with r ws show ?thesis by auto
qed

text \<open>
  The amended C5 on three words, from the first word to the second and from the last
  word back to the first, and on the one-word list.
\<close>

theorem rotateWord_next_index_witness:
  "host (snd (demo_world (Some ''A,B,C''))) = Some ((demo_host (Some ''A,B,C'')) \<lparr>click_listeners := 1\<rparr>)
   \<and> spans ((demo_host (Some ''A,B,C'')) \<lparr>click_listeners := 1\<rparr>) \<noteq> []
   \<and> (\<exists>this' p'. rotateWord \<lparr>words = [Str ''A'', Str ''C'', Str ''B''], currentIndex = 0,
                                 interval = 2500, duration = 400, timeout = Some 1\<rparr>
                        (snd (demo_world (Some ''A,B,C''))) = Returns (this', p')
           \<and> currentIndex this' = 1)
   \<and> (\<exists>this' p'. rotateWord \<lparr>words = [Str ''A'', Str ''C'', Str ''B''], currentIndex = 2,
                                 interval = 2500, duration = 400, timeout = Some 1\<rparr>
                        (snd (demo_world (Some ''A,B,C''))) = Returns (this', p')
           \<and> currentIndex this' = 0)
   \<and> (\<exists>this' p'. rotateWord \<lparr>words = [Str ''A''], currentIndex = 0, interval = 2500,
                                 duration = 400, timeout = Some 1\<rparr>
                        (snd (demo_world (Some ''A,B,C''))) = Returns (this', p')
           \<and> currentIndex this' = 0)"
proof -
  have h: "host (snd (demo_world (Some ''A,B,C''))) = Some ((demo_host (Some ''A,B,C'')) \<lparr>click_listeners := 1\<rparr>)"
    "spans ((demo_host (Some ''A,B,C'')) \<lparr>click_listeners := 1\<rparr>) \<noteq> []"
    by (simp_all add: defs)
  from rotateWord_next_index [OF h, where this = "\<lparr>words = [Str ''A'', Str ''C'', Str ''B''],
        currentIndex = 0, interval = 2500, duration = 400, timeout = Some 1\<rparr>" and n = 3 and i = 0]
    rotateWord_next_index [OF h, where this = "\<lparr>words = [Str ''A'', Str ''C'', Str ''B''],
        currentIndex = 2, interval = 2500, duration = 400, timeout = Some 1\<rparr>" and n = 3 and i = 2]
    rotateWord_next_index [OF h, where this = "\<lparr>words = [Str ''A''], currentIndex = 0,
        interval = 2500, duration = 400, timeout = Some 1\<rparr>" and n = 1 and i = 0]
  show ?thesis using h by auto
qed

text \<open>
  C5 as stated fails: in a container with no word element the rotation cycle throws, at
  \<open>previousWordEl.classList\<close>, before it writes the index. On the instance built from two
  words the index stays 0, not \<open>(0 + 1) mod 2\<close>; on one word the cycle throws as well.
\<close>

theorem rotateWord_without_previous_counterexample:
  "fst (bare_world (Some ''A,B'')) =
     Some \<lparr>words = [Str ''A'', Str ''B''], currentIndex = 0, interval = 2500, duration = 400,
           timeout = Some 1\<rparr>
   \<and> threw (rotateWord \<lparr>words = [Str ''A'', Str ''B''], currentIndex = 0, interval = 2500,
                         duration = 400, timeout = Some 1\<rparr> (snd (bare_world (Some ''A,B''))))
   \<and> currentIndex (fst (state_of (rotateWord \<lparr>words = [Str ''A'', Str ''B''], currentIndex = 0,
         interval = 2500, duration = 400, timeout = Some 1\<rparr> (snd (bare_world (Some ''A,B''))))))
       = 0
   \<and> currentIndex (fst (state_of (rotateWord \<lparr>words = [Str ''A'', Str ''B''], currentIndex = 0,
         interval = 2500, duration = 400, timeout = Some 1\<rparr> (snd (bare_world (Some ''A,B''))))))
       \<noteq> (0 + 1) mod 2
   \<and> threw (rotateWord \<lparr>words = [Str ''A''], currentIndex = 0, interval = 2500,
                         duration = 400, timeout = Some 1\<rparr> (snd (bare_world (Some ''A''))))"
  by (simp add: defs)

text \<open>
  C6. For every non-empty list of words split from the attribute and every sequence of
  draws of \<open>Math.random\<close>, the built word list starts with the same first word, and the
  rest of it is a permutation of the rest of the input (equal as multisets).
\<close>

theorem buildWords_shuffle:
  assumes "unit_draws random" "data_words el = Some s" "s \<noteq> []"
    and "split CHR '','' s = w # rest"
  shows "\<exists>tail. buildWords random (Some el) = Inr (Str w # tail)
           \<and> mset tail = mset (map Str rest)"
  using assms by (simp add: buildWords_def js_get_def shuffleArray_mset drop_Suc)

text \<open>
  C6 on three words.
\<close>

theorem buildWords_shuffle_witness:
  "unit_draws (\<lambda>k. 0) \<and>
   (\<exists>tail. buildWords (\<lambda>k. 0) (Some (demo_host (Some ''A,B,C'')))
              = Inr (Str ''A'' # tail)
          \<and> mset tail = mset (map Str [''B'', ''C'']))"
  using buildWords_shuffle [where random = "\<lambda>k. 0" and el = "demo_host (Some ''A,B,C'')"
      and s = "''A,B,C''" and w = "''A''" and rest = "[''B'', ''C'']"]
  by (simp add: unit_draws_def demo_host_def)

text \<open>
  C7, as amended. In every world reached by clicks, timer firings and waits from
  construction on a container that holds a word element, the stored handle is non-null
  exactly when a rotation is scheduled, at most one rotation timer is pending, and the
  stored handle is the handle of that timer; construction returns and establishes this.
  The timer here is the armed rotation timer; the deferred removal of the word that left
  is not counted.
\<close>

theorem timer_invariant_reachable:
  assumes "spans el \<noteq> []"
  shows "\<not> threw (initialize random (page_at_load (Some el) body now))
     \<and> timer_invariant (state_of (initialize random (page_at_load (Some el) body now)))
     \<and> timer_invariant (run evs (state_of (initialize random (page_at_load (Some el) body now))))"
proof -
  obtain ws where "buildWords random (Some el) = Inr ws"
    using buildWords_host by blast
  then have "\<not> threw (initialize random (page_at_load (Some el) body now))"
    by (simp add: initialize_Returns)
  moreover have "good (state_of (initialize random (page_at_load (Some el) body now)))"
    using assms by (rule initialize_good)
  ultimately show ?thesis
    by (simp add: good_timer_invariant good_run)
qed

text \<open>
  The amended C7 along a run with a rotation, a pause, a removal and a resume.
\<close>

theorem timer_invariant_reachable_witness:
  "spans (demo_host (Some ''A,B,C'')) \<noteq> []
   \<and> timer_invariant (run [Advance 2500, Fire 1, Click, Advance 400, Fire 2, Click]
        (demo_world (Some ''A,B,C'')))
   \<and> timeout_of (run [Advance 2500, Fire 1, Click, Advance 400, Fire 2, Click]
        (demo_world (Some ''A,B,C''))) = Some 4"
proof -
  have h: "spans (demo_host (Some ''A,B,C'')) \<noteq> []"
    by (simp add: demo_host_def)
  have t: "timeout_of (run [Advance 2500, Fire 1, Click, Advance 400, Fire 2, Click]
        (demo_world (Some ''A,B,C''))) = Some 4"
    by (simp add: defs)
  from timer_invariant_reachable [OF h, where random = "\<lambda>k. 0" and body = "[]" and now = 0
      and evs = "[Advance 2500, Fire 1, Click, Advance 400, Fire 2, Click]"]
  show ?thesis using h t by (simp add: demo_world_def)
qed

text \<open>
  C7 as stated fails: on a container with no word element construction succeeds, the
  first firing of the timer throws in the rotation cycle before \<open>scheduleWord_\<close> is
  reached, and the instance keeps the handle 1 of the timer that has fired while no
  rotation is scheduled.
\<close>

theorem stale_handle_counterexample:
  "timeout_of (bare_world (Some ''A,B'')) = Some 1
   \<and> timeout_of (run [Advance 2500, Fire 1] (bare_world (Some ''A,B''))) = Some 1
   \<and> rotation_timers (snd (run [Advance 2500, Fire 1] (bare_world (Some ''A,B'')))) = []
   \<and> timers (snd (run [Advance 2500, Fire 1] (bare_world (Some ''A,B'')))) = []
   \<and> \<not> timer_invariant (run [Advance 2500, Fire 1] (bare_world (Some ''A,B'')))"
  by (simp add: defs timer_invariant_def)

text \<open>
  C8. For every reachable instance that is running, a click pauses it, and a second
  click, any time \<open>d\<close> later, makes it running again: one rotation timer is armed, and it
  is due a full interval of 2500 ms after the second click, whatever was left of the
  interrupted countdown. The index and the word list are as before.
\<close>

theorem pause_then_resume:
  assumes "w = run evs (state_of (initialize random (page_at_load (Some el) body now)))"
    and "running w"
  shows "paused (step Click w)
     \<and> running (run [Click, Advance d, Click] w)
     \<and> rotation_timers (snd (run [Click, Advance d, Click] w)) =
         [\<lparr>handle = Suc (last_handle (snd w)), due = clock (snd w) + d + 2500,
           callback = RotateWord\<rparr>]
     \<and> clock (snd (run [Click, Advance d, Click] w)) = clock (snd w) + d
     \<and> index_of (run [Click, Advance d, Click] w) = index_of w
     \<and> words_of (run [Click, Advance d, Click] w) = words_of w"
proof -
  from assms(2) have "fst w \<noteq> None"
    by (auto simp: running_def split: option.splits)
  then have "\<exists>this p. w = (Some this, p)"
    by (rule instance_cases)
  then obtain this p where w: "w = (Some this, p)"
    by (elim exE)
  have "timing_of w = (2500, 400)"
    unfolding assms(1) by (rule reachable_timing)
  then have i: "interval this = 2500"
    by (simp add: w timing_of_def)
  let ?r = "this\<lparr>timeout := None\<rparr>"
  from running_Click [of this p] assms(2)
  obtain p1 where s1: "step Click w = (Some ?r, p1)"
    and p1: "paused (Some ?r, p1)" "clock p1 = clock p" "last_handle p1 = last_handle p"
    unfolding w by (cases "step Click (Some this, p)") (auto simp del: step.simps)
  let ?p2 = "p1\<lparr>clock := clock p1 + d\<rparr>"
  have p2: "paused (Some ?r, ?p2)"
    using p1(1) by (simp add: paused_def timeout_of_def rotation_timers_def)
  have run: "run [Click, Advance d, Click] w = step Click (Some ?r, ?p2)"
    by (simp add: run_def s1 del: step.simps) simp
  from paused_Click [OF p2] p1 s1 i
  show ?thesis
    unfolding run
    by (simp add: w index_of_def words_of_def del: step.simps)
qed

text \<open>
  C8 after the first rotation, with a second between the two clicks.
\<close>

theorem pause_then_resume_witness:
  "running (run [Advance 2500, Fire 1] (demo_world (Some ''A,B,C'')))
   \<and> paused (step Click (run [Advance 2500, Fire 1] (demo_world (Some ''A,B,C''))))
   \<and> running (run [Click, Advance 1000, Click] (run [Advance 2500, Fire 1] (demo_world (Some ''A,B,C''))))
   \<and> rotation_timers (snd (run [Click, Advance 1000, Click]
         (run [Advance 2500, Fire 1] (demo_world (Some ''A,B,C''))))) =
       [\<lparr>handle = 4, due = 2500 + 1000 + 2500, callback = RotateWord\<rparr>]"
proof -
  have r: "running (run [Advance 2500, Fire 1] (demo_world (Some ''A,B,C'')))"
    by (simp add: defs)
  have l: "last_handle (snd (run [Advance 2500, Fire 1] (demo_world (Some ''A,B,C'')))) = 3"
    "clock (snd (run [Advance 2500, Fire 1] (demo_world (Some ''A,B,C'')))) = 2500"
    by (simp_all add: defs)
  from pause_then_resume [OF _ r, where evs = "[Advance 2500, Fire 1]" and random = "\<lambda>k. 0"
      and el = "demo_host (Some ''A,B,C'')" and body = "[]" and now = 0 and d = 1000]
  show ?thesis using r l by (simp add: demo_world_def)
qed

text \<open>
  C9. The constructor adds the class \<open>is-ready\<close> to the body, and nothing that runs
  afterwards (rotation, scheduling, removal, click) changes the classes of the body: in
  every reachable world the class is set.
\<close>

theorem ready_flag_kept:
  "body_classes (snd (state_of (initialize random (page_at_load (Some el) body now))))
     = classList_add IS_READY body
   \<and> IS_READY \<in> set (body_classes (snd (state_of (initialize random (page_at_load (Some el) body now)))))
   \<and> body_classes (snd (run evs (state_of (initialize random (page_at_load (Some el) body now)))))
     = body_classes (snd (state_of (initialize random (page_at_load (Some el) body now))))"
proof -
  obtain ws where "buildWords random (Some el) = Inr ws"
    using buildWords_host by blast
  then have "body_classes (snd (state_of (initialize random (page_at_load (Some el) body now))))
     = classList_add IS_READY body"
    by (simp add: initialize_Returns)
  then show ?thesis
    by (simp add: run_body_classes classList_add_def)
qed

text \<open>
  C10, as amended. For every non-empty value \<open>s\<close> of the attribute, the built word list
  holds exactly the pieces of \<open>s\<close> cut at every comma, nothing trimmed and empty pieces
  kept as empty words: the first piece first, the others after it in the order the
  shuffle leaves them. The pieces contain no comma, and joined by commas they give \<open>s\<close>
  back; there is one more of them than there are commas. The value \<open>A,\<close> yields the two
  words \<open>A\<close> and the empty word.
\<close>

theorem buildWords_tokens:
  assumes "unit_draws random" "data_words el = Some s" "s \<noteq> []"
  shows "\<exists>ws. buildWords random (Some el) = Inr ws
     \<and> mset ws = mset (map Str (split CHR '','' s))
     \<and> hd ws = Str (hd (split CHR '','' s))
     \<and> length ws = Suc (count_list s CHR '','')
     \<and> concat (map ((#) CHR '','') (split CHR '','' s)) = CHR '','' # s
     \<and> (\<forall>w \<in> set (split CHR '','' s). CHR '','' \<notin> set w)
     \<and> (s = ''A,'' \<longrightarrow> ws = [Str ''A'', Str ''''])"
proof -
  obtain w rest where sp: "split CHR '','' s = w # rest"
    using split_not_Nil [of "CHR '',''" s] by (cases "split CHR '','' s") auto
  let ?ws = "Str w # shuffleArray random (map Str rest)"
  have b: "buildWords random (Some el) = Inr ?ws"
    using assms(2,3) sp by (simp add: buildWords_def js_get_def drop_Suc)
  have m: "mset ?ws = mset (map Str (split CHR '','' s))"
    using assms(1) sp by (simp add: shuffleArray_mset)
  then have "size (mset ?ws) = size (mset (map Str (split CHR '','' s)))"
    by simp
  then have l: "length ?ws = Suc (count_list s CHR '','')"
    by (simp add: split_length del: mset.simps mset_map)
  have e: "s = ''A,'' \<longrightarrow> ?ws = [Str ''A'', Str '''']"
    using sp assms(1) by (auto simp: shuffleArray_single)
  show ?thesis
    using b m l e sp split_pieces [of "CHR '',''" s] split_no_sep [of _ "CHR '',''" s]
    by (intro exI [of _ ?ws]) simp
qed

text \<open>
  The amended C10 on the value \<open>A,\<close>.
\<close>

theorem buildWords_tokens_witness:
  "unit_draws (\<lambda>k. 0)
   \<and> buildWords (\<lambda>k. 0) (Some (demo_host (Some ''A,''))) = Inr [Str ''A'', Str '''']
   \<and> mset [Str ''A'', Str ''''] = mset (map Str (split CHR '','' ''A,''))"
proof -
  have u: "unit_draws (\<lambda>k. 0)" by (simp add: unit_draws_def)
  have d: "data_words (demo_host (Some ''A,'')) = Some ''A,''" by (simp add: demo_host_def)
  from buildWords_tokens [OF u d] show ?thesis using u by auto
qed

text \<open>
  C10 as stated fails: for \<open>A,B,C\<close> with every draw 0 the built list is A, C, B, which is
  not the list of the pieces in their order.
\<close>

theorem buildWords_order_counterexample:
  "unit_draws (\<lambda>k. 0)
   \<and> buildWords (\<lambda>k. 0) (Some (demo_host (Some ''A,B,C''))) = Inr [Str ''A'', Str ''C'', Str ''B'']
   \<and> map Str (split CHR '','' ''A,B,C'') = [Str ''A'', Str ''B'', Str ''C'']
   \<and> buildWords (\<lambda>k. 0) (Some (demo_host (Some ''A,B,C'')))
       \<noteq> Inr (map Str (split CHR '','' ''A,B,C''))"
  by (simp add: unit_draws_def defs)

end
